theory Spec2Isabelle
  imports Main "HOL-Library.Multiset"
begin

section \<open>The minibatch generator of the Bayesian linear regression notebook\<close>

text \<open>
  The notebook feeds its training loop from this generator function:
  \<^verbatim>\<open>
  def generator(arrays, batch_size):
    starts = [0] * len(arrays)  # pointers to where we are in iteration
    while True:
      batches = []
      for i, array in enumerate(arrays):
        start = starts[i]
        stop = start + batch_size
        diff = stop - array.shape[0]
        if diff <= 0:
          batch = array[start:stop]
          starts[i] += batch_size
        else:
          batch = np.concatenate((array[start:], array[:diff]))
          starts[i] = diff
        batches.append(batch)
      yield batches
  \<close>
  An array is modelled by the list of its rows along the first axis, so \<open>array.shape[0]\<close>
  is the length of the list, slicing selects a run of rows, and \<open>np.concatenate\<close> of two
  slices of one array appends them. Python integers are unbounded: cursors and the batch
  size are of type \<open>int\<close>.
\<close>

subsection \<open>Slicing along the first axis\<close>

text \<open>
  A slice bound of Python (step 1) over a sequence of \<open>n\<close> rows: a negative bound counts
  from the end and is cut off at 0, a non-negative one is cut off at \<open>n\<close>.
\<close>

definition slice_index :: "nat \<Rightarrow> int \<Rightarrow> nat" where
  "slice_index n i = (if i < 0 then nat (max (i + int n) 0) else min (nat i) n)"

text \<open>\<open>array[start:stop]\<close>, \<open>array[start:]\<close> and \<open>array[:stop]\<close>.\<close>

definition slice :: "'a list \<Rightarrow> int \<Rightarrow> int \<Rightarrow> 'a list" where
  "slice array start stop =
     (let lo = slice_index (length array) start;
          hi = slice_index (length array) stop
      in take (hi - lo) (drop lo array))"

definition slice_from :: "'a list \<Rightarrow> int \<Rightarrow> 'a list" where
  "slice_from array start = drop (slice_index (length array) start) array"

definition slice_to :: "'a list \<Rightarrow> int \<Rightarrow> 'a list" where
  "slice_to array stop = take (slice_index (length array) stop) array"

subsection \<open>The generator\<close>

datatype error = IndexError

text \<open>The local variables of the generator that live across a \<open>yield\<close>.\<close>

record 'a gen =
  arrays :: "'a list list"
  batch_size :: int
  starts :: "int list"

text \<open>\<open>starts = [0] * len(arrays)\<close>: the state in which the first \<open>next()\<close> enters the loop.\<close>

definition generator :: "'a list list \<Rightarrow> int \<Rightarrow> 'a gen" where
  "generator as b = \<lparr>arrays = as, batch_size = b, starts = replicate (length as) 0\<rparr>"

text \<open>\<open>diff = stop - array.shape[0]\<close> with \<open>stop = start + batch_size\<close>.\<close>

definition generator_diff :: "int \<Rightarrow> 'a list \<Rightarrow> int \<Rightarrow> int" where
  "generator_diff b array start = (start + b) - int (length array)"

text \<open>
  The body of the \<open>for\<close> loop for one array: the batch that is appended and the value
  written to \<open>starts[i]\<close>.
\<close>

definition generator_body :: "int \<Rightarrow> 'a list \<Rightarrow> int \<Rightarrow> 'a list \<times> int" where
  "generator_body b array start =
     (let stop = start + b;
          diff = generator_diff b array start
      in if diff \<le> 0 then (slice array start stop, start + b)
         else (slice_from array start @ slice_to array diff, diff))"

text \<open>
  The \<open>for\<close> loop over \<open>enumerate(arrays)\<close>. Reading \<open>starts[i]\<close> beyond the end of the
  list raises \<open>IndexError\<close>.
\<close>

fun generator_for ::
  "int \<Rightarrow> (nat \<times> 'a list) list \<Rightarrow> int list \<Rightarrow> 'a list list \<Rightarrow> error + ('a list list \<times> int list)"
where
  "generator_for b [] ss batches = Inr (batches, ss)"
| "generator_for b ((i, array) # rest) ss batches =
     (if i < length ss then
        (case generator_body b array (ss ! i) of
           (batch, start') \<Rightarrow> generator_for b rest (ss[i := start']) (batches @ [batch]))
      else Inl IndexError)"

text \<open>One \<open>next()\<close>: one round of the \<open>while\<close> loop, up to the \<open>yield\<close>.\<close>

definition generator_next :: "'a gen \<Rightarrow> error + ('a list list \<times> 'a gen)" where
  "generator_next g =
     (case generator_for (batch_size g) (enumerate 0 (arrays g)) (starts g) [] of
        Inl e \<Rightarrow> Inl e
      | Inr (batches, ss) \<Rightarrow> Inr (batches, g\<lparr>starts := ss\<rparr>))"

text \<open>\<open>k\<close> successive calls of \<open>next()\<close>: the batches yielded, in order, and the state left.\<close>

fun generator_run :: "nat \<Rightarrow> 'a gen \<Rightarrow> error + ('a list list list \<times> 'a gen)" where
  "generator_run 0 g = Inr ([], g)"
| "generator_run (Suc k) g =
     (case generator_next g of
        Inl e \<Rightarrow> Inl e
      | Inr (batches, g') \<Rightarrow>
          (case generator_run k g' of
             Inl e \<Rightarrow> Inl e
           | Inr (out, g'') \<Rightarrow> Inr (batches # out, g'')))"

subsection \<open>The generator as a relation\<close>

text \<open>
  The same loops, read as a relation between a state and an outcome, with one rule for
  each path through the code: the end of the \<open>for\<close> loop, the branch \<open>diff <= 0\<close>, the
  \<open>else\<close> branch, and the failing read of \<open>starts[i]\<close>. A relation can hold for several
  outcomes of one state, or for none.
\<close>

inductive for_steps ::
  "int \<Rightarrow> (nat \<times> 'a list) list \<Rightarrow> int list \<Rightarrow> 'a list list \<Rightarrow>
   error + ('a list list \<times> int list) \<Rightarrow> bool"
where
  for_end: "for_steps b [] ss batches (Inr (batches, ss))"
| for_direct:
    "i < length ss \<Longrightarrow> ss ! i + b - int (length array) \<le> 0 \<Longrightarrow>
     for_steps b rest (ss[i := ss ! i + b]) (batches @ [slice array (ss ! i) (ss ! i + b)]) r \<Longrightarrow>
     for_steps b ((i, array) # rest) ss batches r"
| for_wrap:
    "i < length ss \<Longrightarrow> \<not> ss ! i + b - int (length array) \<le> 0 \<Longrightarrow>
     for_steps b rest (ss[i := ss ! i + b - int (length array)])
       (batches @ [slice_from array (ss ! i) @ slice_to array (ss ! i + b - int (length array))]) r \<Longrightarrow>
     for_steps b ((i, array) # rest) ss batches r"
| for_index_error:
    "\<not> i < length ss \<Longrightarrow> for_steps b ((i, array) # rest) ss batches (Inl IndexError)"

text \<open>One \<open>next()\<close>: the batches yielded and the state left, or the error raised.\<close>

inductive yields :: "'a gen \<Rightarrow> error + ('a list list \<times> 'a gen) \<Rightarrow> bool" where
  yields_batches:
    "for_steps (batch_size g) (enumerate 0 (arrays g)) (starts g) [] (Inr (batches, ss)) \<Longrightarrow>
     yields g (Inr (batches, g\<lparr>starts := ss\<rparr>))"
| yields_error:
    "for_steps (batch_size g) (enumerate 0 (arrays g)) (starts g) [] (Inl e) \<Longrightarrow>
     yields g (Inl e)"

text \<open>A run: successive calls of \<open>next()\<close> that each yield, and the batches they yield.\<close>

inductive produces :: "'a gen \<Rightarrow> 'a list list list \<Rightarrow> 'a gen \<Rightarrow> bool" where
  produces_none: "produces g [] g"
| produces_next:
    "yields g (Inr (batches, g')) \<Longrightarrow> produces g' out g'' \<Longrightarrow> produces g (batches # out) g''"

code_pred for_steps .

code_pred yields .

code_pred produces .

subsection \<open>One array on its own\<close>

text \<open>The cursor of one array after \<open>k\<close> rounds, and the batch of round \<open>k\<close> (from 0).\<close>

fun cursor_after :: "int \<Rightarrow> 'a list \<Rightarrow> nat \<Rightarrow> int \<Rightarrow> int" where
  "cursor_after b array 0 s = s"
| "cursor_after b array (Suc k) s = cursor_after b array k (snd (generator_body b array s))"

definition batch_at :: "int \<Rightarrow> 'a list \<Rightarrow> nat \<Rightarrow> int \<Rightarrow> 'a list" where
  "batch_at b array k s = fst (generator_body b array (cursor_after b array k s))"

text \<open>\<open>ceil(L/B)\<close> on natural numbers.\<close>

definition ceil_div :: "nat \<Rightarrow> nat \<Rightarrow> nat" where
  "ceil_div l b = (l + b - 1) div b"

section \<open>Slices at non-negative bounds\<close>

lemma slice_nonneg:
  "0 \<le> i \<Longrightarrow> 0 \<le> j \<Longrightarrow> slice xs i j = take (nat j - nat i) (drop (nat i) xs)"
  by (auto simp: slice_def slice_index_def min_def Let_def)

lemma slice_from_nonneg: "0 \<le> i \<Longrightarrow> slice_from xs i = drop (nat i) xs"
  by (auto simp: slice_from_def slice_index_def min_def)

lemma slice_to_nonneg: "0 \<le> j \<Longrightarrow> slice_to xs j = take (nat j) xs"
  by (auto simp: slice_to_def slice_index_def min_def)

section \<open>The loops in closed form\<close>

lemma generator_for_enumerate:
  "length ss = j + length as \<Longrightarrow>
   generator_for b (enumerate j as) ss acc =
     Inr (acc @ map2 (\<lambda>a s. fst (generator_body b a s)) as (drop j ss),
          take j ss @ map2 (\<lambda>a s. snd (generator_body b a s)) as (drop j ss))"
proof (induction as arbitrary: j ss acc)
  case Nil
  then show ?case by simp
next
  case (Cons a as)
  obtain batch s' where body: "generator_body b a (ss ! j) = (batch, s')"
    by (cases "generator_body b a (ss ! j)")
  from Cons.prems have j: "j < length ss" by simp
  have len: "length (ss[j := s']) = Suc j + length as"
    using Cons.prems by simp
  have dr: "drop j ss = ss ! j # drop (Suc j) ss"
    using j by (simp add: Cons_nth_drop_Suc)
  have tk: "take (Suc j) (ss[j := s']) = take j ss @ [s']"
    using j by (simp add: take_Suc_conv_app_nth)
  show ?case
    using j body Cons.IH [OF len, of "acc @ [batch]"] dr tk
    by simp
qed

lemma generator_next_closed:
  assumes "length (starts g) = length (arrays g)"
  shows "generator_next g =
     Inr (map2 (\<lambda>a s. fst (generator_body (batch_size g) a s)) (arrays g) (starts g),
          g\<lparr>starts := map2 (\<lambda>a s. snd (generator_body (batch_size g) a s)) (arrays g) (starts g)\<rparr>)"
  using generator_for_enumerate [of "starts g" 0 "arrays g" "batch_size g" "[]"] assms
  by (simp add: generator_next_def)

lemma map2_map2_same:
  "map2 f as (map2 h as ss) = map2 (\<lambda>a s. f a (h a s)) as ss"
proof (induction as arbitrary: ss)
  case Nil
  then show ?case by simp
next
  case (Cons a as)
  then show ?case by (cases ss) simp_all
qed

lemma batch_at_Suc:
  "batch_at b a (Suc n) s = batch_at b a n (snd (generator_body b a s))"
  by (simp add: batch_at_def)

lemma generator_run_closed:
  "length (starts g) = length (arrays g) \<Longrightarrow>
   generator_run k g =
     Inr (map (\<lambda>n. map2 (\<lambda>a s. batch_at (batch_size g) a n s) (arrays g) (starts g)) [0..<k],
          g\<lparr>starts := map2 (\<lambda>a s. cursor_after (batch_size g) a k s) (arrays g) (starts g)\<rparr>)"
proof (induction k arbitrary: g)
  case 0
  have "(\<lambda>(a :: 'a list, s :: int). s) = snd"
    by auto
  then have "map2 (\<lambda>a s. s) (arrays g) (starts g) = starts g"
    using 0 by (simp add: map_snd_zip)
  then show ?case by simp
next
  case (Suc k)
  let ?b = "batch_size g"
  let ?ss = "map2 (\<lambda>a s. snd (generator_body ?b a s)) (arrays g) (starts g)"
  let ?g = "g\<lparr>starts := ?ss\<rparr>"
  have wf: "length (starts ?g) = length (arrays ?g)"
    using Suc.prems by simp
  have upt: "[0..<Suc k] = 0 # map Suc [0..<k]"
    by (simp only: map_Suc_upt upt_conv_Cons zero_less_Suc)
  have first: "map2 (\<lambda>a s. batch_at ?b a 0 s) (arrays g) (starts g) =
      map2 (\<lambda>a s. fst (generator_body ?b a s)) (arrays g) (starts g)"
    by (simp add: batch_at_def)
  have ih: "generator_run k ?g =
      Inr (map (\<lambda>n. map2 (\<lambda>a s. batch_at ?b a (Suc n) s) (arrays g) (starts g)) [0..<k],
           g\<lparr>starts := map2 (\<lambda>a s. cursor_after ?b a (Suc k) s) (arrays g) (starts g)\<rparr>)"
    using Suc.IH [OF wf] by (simp add: map2_map2_same batch_at_Suc)
  show ?case
    unfolding upt
    by (simp add: generator_next_closed [OF Suc.prems] ih first o_def)
qed

lemma generator_next_nth:
  assumes wf: "length (starts g) = length (arrays g)" and i: "i < length (arrays g)"
  shows "\<exists>batches g'. generator_next g = Inr (batches, g') \<and>
     length batches = length (arrays g) \<and>
     arrays g' = arrays g \<and> batch_size g' = batch_size g \<and>
     length (starts g') = length (arrays g) \<and>
     batches ! i = fst (generator_body (batch_size g) (arrays g ! i) (starts g ! i)) \<and>
     starts g' ! i = snd (generator_body (batch_size g) (arrays g ! i) (starts g ! i))"
  using wf i by (simp add: generator_next_closed [OF wf])

section \<open>One round on one array\<close>

lemma generator_body_direct:
  assumes "0 \<le> s" and "0 \<le> b" and "s + b \<le> int (length a)"
  shows "generator_body b a s = (take (nat b) (drop (nat s) a), s + b)"
proof -
  have "nat (s + b) - nat s = nat b"
    using assms by linarith
  then show ?thesis
    using assms by (simp add: generator_body_def generator_diff_def slice_nonneg)
qed

lemma generator_body_wrap:
  assumes "0 \<le> s" and "int (length a) < s + b"
  shows "generator_body b a s =
    (drop (nat s) a @ take (nat (s + b - int (length a))) a, s + b - int (length a))"
  using assms
  by (simp add: generator_body_def generator_diff_def slice_from_nonneg slice_to_nonneg Let_def)

lemma take_drop_upt:
  "m + n \<le> length xs \<Longrightarrow> take n (drop m xs) = map (\<lambda>j. xs ! j) [m..<m + n]"
  by (auto simp: list_eq_iff_nth_eq)

lemma length_ten:
  assumes "length xs = 10"
  shows "drop 8 xs @ take 2 xs = [xs ! 8, xs ! 9, xs ! 0, xs ! 1]"
proof -
  have "drop 8 xs = map (\<lambda>j. xs ! j) [8..<8 + 2]"
    using take_drop_upt [of 8 2 xs] assms by simp
  moreover have "take 2 xs = map (\<lambda>j. xs ! j) [0..<0 + 2]"
    using take_drop_upt [of 0 2 xs] assms by simp
  moreover have "[8..<8 + 2] = [8, 9 :: nat]" and "[0..<0 + 2] = [0, 1 :: nat]"
    by (simp_all add: upt_rec)
  ultimately show ?thesis by simp
qed

section \<open>One production step\<close>

text \<open>
  C1. One production step, for an array of length \<open>L\<close>, a batch size \<open>B \<ge> 1\<close> and a cursor
  \<open>start \<ge> 0\<close>: when \<open>start + B \<le> L\<close> the batch is \<open>array[start:start+B]\<close>, which is
  the rows at the indices \<open>start, ..., start+B-1\<close> in order, each once, and the cursor
  becomes \<open>start + B\<close>; otherwise the batch is \<open>array[start:L]\<close> followed by
  \<open>array[0:diff]\<close> with \<open>diff = start + B - L\<close>, and the cursor becomes \<open>diff\<close>. For
  \<open>L = 10\<close>, \<open>B = 4\<close>, \<open>start = 8\<close> the batch is the rows 8, 9, 0, 1 and the cursor
  becomes 2.
\<close>

theorem production_step:
  "(length (starts g) = length (arrays g) \<and> i < length (arrays g) \<and>
    1 \<le> batch_size g \<and> 0 \<le> starts g ! i \<longrightarrow>
    (\<exists>batches g'. generator_next g = Inr (batches, g') \<and>
       (let array = arrays g ! i; start = starts g ! i; B = batch_size g;
            L = int (length array); diff = generator_diff B array start
        in if start + B \<le> L
           then batches ! i = slice array start (start + B) \<and>
                batches ! i = map (\<lambda>j. array ! j) [nat start..<nat start + nat B] \<and>
                starts g' ! i = start + B
           else diff = start + B - L \<and>
                batches ! i = slice array start L @ slice array 0 diff \<and>
                starts g' ! i = diff))) \<and>
   (length array = 10 \<longrightarrow>
      generator_next \<lparr>arrays = [array], batch_size = 4, starts = [8]\<rparr> =
        Inr ([[array ! 8, array ! 9, array ! 0, array ! 1]],
             \<lparr>arrays = [array], batch_size = 4, starts = [2]\<rparr>))"
proof (intro conjI impI)
  assume h: "length (starts g) = length (arrays g) \<and> i < length (arrays g) \<and>
    1 \<le> batch_size g \<and> 0 \<le> starts g ! i"
  let ?a = "arrays g ! i" and ?s = "starts g ! i" and ?b = "batch_size g"
  from h obtain batches g' where nxt: "generator_next g = Inr (batches, g')"
    and bi: "batches ! i = fst (generator_body ?b ?a ?s)"
    and si: "starts g' ! i = snd (generator_body ?b ?a ?s)"
    using generator_next_nth [of g i] by blast
  have s0: "0 \<le> ?s" and b1: "1 \<le> ?b"
    using h by simp_all
  have "if ?s + ?b \<le> int (length ?a)
     then batches ! i = slice ?a ?s (?s + ?b) \<and>
          batches ! i = map (\<lambda>j. ?a ! j) [nat ?s..<nat ?s + nat ?b] \<and>
          starts g' ! i = ?s + ?b
     else generator_diff ?b ?a ?s = ?s + ?b - int (length ?a) \<and>
          batches ! i = slice ?a ?s (int (length ?a)) @
             slice ?a 0 (generator_diff ?b ?a ?s) \<and>
          starts g' ! i = generator_diff ?b ?a ?s"
  proof (cases "?s + ?b \<le> int (length ?a)")
    case True
    have body: "generator_body ?b ?a ?s = (take (nat ?b) (drop (nat ?s) ?a), ?s + ?b)"
      using generator_body_direct [of ?s ?b ?a] s0 b1 True by simp
    have "nat (?s + ?b) - nat ?s = nat ?b"
      using s0 b1 by linarith
    then have sl: "slice ?a ?s (?s + ?b) = take (nat ?b) (drop (nat ?s) ?a)"
      using s0 b1 by (simp add: slice_nonneg)
    have "nat ?s + nat ?b \<le> length ?a"
      using True s0 b1 by linarith
    then have "take (nat ?b) (drop (nat ?s) ?a) = map (\<lambda>j. ?a ! j) [nat ?s..<nat ?s + nat ?b]"
      by (rule take_drop_upt)
    with True body sl bi si show ?thesis by simp
  next
    case False
    then have gt: "int (length ?a) < ?s + ?b" by simp
    have body: "generator_body ?b ?a ?s =
        (drop (nat ?s) ?a @ take (nat (?s + ?b - int (length ?a))) ?a, ?s + ?b - int (length ?a))"
      using generator_body_wrap [OF s0 gt] .
    have tail: "slice ?a ?s (int (length ?a)) = drop (nat ?s) ?a"
      using s0 by (simp add: slice_nonneg)
    have pre: "slice ?a 0 (?s + ?b - int (length ?a)) = take (nat (?s + ?b - int (length ?a))) ?a"
      using gt by (simp add: slice_nonneg)
    from False body tail pre bi si show ?thesis
      by (simp add: generator_diff_def)
  qed
  with nxt show "\<exists>batches g'. generator_next g = Inr (batches, g') \<and>
       (let array = arrays g ! i; start = starts g ! i; B = batch_size g;
            L = int (length array); diff = generator_diff B array start
        in if start + B \<le> L
           then batches ! i = slice array start (start + B) \<and>
                batches ! i = map (\<lambda>j. array ! j) [nat start..<nat start + nat B] \<and>
                starts g' ! i = start + B
           else diff = start + B - L \<and>
                batches ! i = slice array start L @ slice array 0 diff \<and>
                starts g' ! i = diff)"
    unfolding Let_def by blast
next
  assume len: "length array = 10"
  have "generator_body 4 array 8 = (drop 8 array @ take 2 array, 2)"
    using generator_body_wrap [of 8 array 4] len by simp
  then show "generator_next \<lparr>arrays = [array], batch_size = 4, starts = [8]\<rparr> =
        Inr ([[array ! 8, array ! 9, array ! 0, array ! 1]],
             \<lparr>arrays = [array], batch_size = 4, starts = [2]\<rparr>)"
    using length_ten [OF len] by (simp add: generator_next_closed)
qed

theorem production_step_witness:
  "(\<exists>batches g'.
      generator_next
        \<lparr>arrays = [[10, 11, 12, 13, 14, 15, 16, 17, 18, 19 :: nat]], batch_size = 4, starts = [2]\<rparr> =
        Inr (batches, g') \<and>
      batches ! 0 = [12, 13, 14, 15] \<and> starts g' ! 0 = 6) \<and>
   generator_next
     \<lparr>arrays = [[10, 11, 12, 13, 14, 15, 16, 17, 18, 19 :: nat]], batch_size = 4, starts = [8]\<rparr> =
     Inr ([[18, 19, 10, 11]],
          \<lparr>arrays = [[10, 11, 12, 13, 14, 15, 16, 17, 18, 19]], batch_size = 4, starts = [2]\<rparr>)"
  using production_step
    [of "\<lparr>arrays = [[10, 11, 12, 13, 14, 15, 16, 17, 18, 19 :: nat]], batch_size = 4, starts = [2]\<rparr>"
        0 "[10, 11, 12, 13, 14, 15, 16, 17, 18, 19 :: nat]"]
  by (auto simp: Let_def upt_rec)

section \<open>Cursor bounds and batch sizes\<close>

lemma generator_run_nth:
  assumes wf: "length (starts g) = length (arrays g)"
  shows "\<exists>out g'. generator_run k g = Inr (out, g') \<and> length out = k \<and>
     arrays g' = arrays g \<and> batch_size g' = batch_size g \<and>
     length (starts g') = length (arrays g) \<and>
     (\<forall>n<k. length (out ! n) = length (arrays g) \<and>
        (\<forall>i<length (arrays g).
           out ! n ! i = batch_at (batch_size g) (arrays g ! i) n (starts g ! i))) \<and>
     (\<forall>i<length (arrays g).
        starts g' ! i = cursor_after (batch_size g) (arrays g ! i) k (starts g ! i))"
  using wf by (simp add: generator_run_closed [OF wf])

lemma generator_wf: "length (starts (generator as b)) = length (arrays (generator as b))"
  by (simp add: generator_def)

lemma generator_run_generator:
  "\<exists>out g'. generator_run k (generator as b) = Inr (out, g') \<and> length out = k \<and>
     arrays g' = as \<and> batch_size g' = b \<and> length (starts g') = length as \<and>
     (\<forall>n<k. length (out ! n) = length as \<and>
        (\<forall>i<length as. out ! n ! i = batch_at b (as ! i) n 0)) \<and>
     (\<forall>i<length as. starts g' ! i = cursor_after b (as ! i) k 0)"
  using generator_run_nth [OF generator_wf, of k as b]
  by (simp add: generator_def)

lemma generator_body_cursor:
  assumes "1 \<le> b" and "b \<le> int (length a)" and "0 \<le> s" and "s \<le> int (length a)"
  shows "0 < snd (generator_body b a s) \<and> snd (generator_body b a s) \<le> int (length a)"
proof (cases "s + b \<le> int (length a)")
  case True
  then show ?thesis
    using assms generator_body_direct [of s b a] by simp
next
  case False
  then show ?thesis
    using assms generator_body_wrap [of s a b] by simp
qed

lemma generator_body_length:
  assumes "1 \<le> b" and "b \<le> int (length a)" and "0 \<le> s" and "s \<le> int (length a)"
  shows "int (length (fst (generator_body b a s))) = b"
proof (cases "s + b \<le> int (length a)")
  case True
  then show ?thesis
    using assms generator_body_direct [of s b a] by simp
next
  case False
  then show ?thesis
    using assms generator_body_wrap [of s a b] by simp
qed

lemma cursor_after_bounds:
  assumes "1 \<le> b" and "b \<le> int (length a)"
  shows "0 \<le> s \<Longrightarrow> s \<le> int (length a) \<Longrightarrow>
    0 \<le> cursor_after b a k s \<and> cursor_after b a k s \<le> int (length a)"
proof (induction k arbitrary: s)
  case 0
  then show ?case by simp
next
  case (Suc k)
  have "0 \<le> snd (generator_body b a s)" and "snd (generator_body b a s) \<le> int (length a)"
    using generator_body_cursor [OF assms Suc.prems] by simp_all
  then show ?case
    using Suc.IH by simp
qed

text \<open>
  C2, as the code has it. For a generator over arrays of lengths \<open>L\<^sub>i\<close> with
  \<open>1 \<le> B \<le> L\<^sub>i\<close> and all cursors 0 at the start: after every number of production
  calls each cursor satisfies \<open>0 \<le> start \<le> L\<^sub>i\<close>. The upper bound is reached: the
  direct branch is taken for \<open>diff = 0\<close> and leaves the cursor at \<open>L\<^sub>i\<close>.
\<close>

theorem cursor_within_length:
  assumes "1 \<le> b" and "\<forall>a\<in>set as. b \<le> int (length a)"
  shows "\<exists>out g. generator_run k (generator as b) = Inr (out, g) \<and>
     length (starts g) = length as \<and>
     (\<forall>i<length as. 0 \<le> starts g ! i \<and> starts g ! i \<le> int (length (as ! i)))"
proof -
  obtain out g where run: "generator_run k (generator as b) = Inr (out, g)"
    and len: "length (starts g) = length as"
    and cur: "\<forall>i<length as. starts g ! i = cursor_after b (as ! i) k 0"
    using generator_run_generator [of k as b] by blast
  have "0 \<le> starts g ! i \<and> starts g ! i \<le> int (length (as ! i))" if "i < length as" for i
  proof -
    have "as ! i \<in> set as"
      using that by simp
    then have "1 \<le> b" and "b \<le> int (length (as ! i))"
      using assms by blast+
    then show ?thesis
      using cursor_after_bounds [of b "as ! i" 0 k] cur that by simp
  qed
  with run len show ?thesis by blast
qed

theorem cursor_within_length_witness:
  "1 \<le> (2 :: int) \<and> 2 \<le> int (length [10, 11, 12 :: nat]) \<and>
   2 \<le> int (length [20, 21 :: nat]) \<and>
   (\<exists>out g. generator_run 3 (generator [[10, 11, 12 :: nat], [20, 21]] 2) = Inr (out, g) \<and>
      length (starts g) = 2 \<and>
      0 \<le> starts g ! 0 \<and> starts g ! 0 \<le> 3 \<and> 0 \<le> starts g ! 1 \<and> starts g ! 1 \<le> 2)"
proof -
  have h1: "1 \<le> (2 :: int)" by simp
  have h2: "\<forall>a\<in>set [[10, 11, 12 :: nat], [20, 21]]. 2 \<le> int (length a)" by simp
  show ?thesis
    using h1 h2 cursor_within_length [OF h1 h2, of 3]
    by (auto simp: less_Suc_eq eval_nat_numeral)
qed

text \<open>
  The strict bound \<open>start < L\<close> fails: with two rows and \<open>B = 2\<close> the cursor is 2 after
  the first call.
\<close>

theorem cursor_below_length_counterexample:
  "generator_run 1 (generator [[10, 11 :: nat]] 2) =
     Inr ([[[10, 11]]], \<lparr>arrays = [[10, 11]], batch_size = 2, starts = [2]\<rparr>) \<and>
   \<not> (starts \<lparr>arrays = [[10, 11 :: nat]], batch_size = 2, starts = [2]\<rparr> ! 0
        < int (length ([[10, 11 :: nat]] ! 0)))"
  by code_simp

text \<open>
  C3. For a generator with batch size \<open>B \<ge> 1\<close> over arrays that each have at least \<open>B\<close>
  rows, cursors 0 at the start: every production call returns one batch per array, and
  every batch has exactly \<open>B\<close> rows.
\<close>

theorem batches_have_batch_size_rows:
  assumes "1 \<le> b" and "\<forall>a\<in>set as. b \<le> int (length a)"
  shows "\<exists>out g. generator_run k (generator as b) = Inr (out, g) \<and> length out = k \<and>
     (\<forall>n<k. length (out ! n) = length as \<and>
        (\<forall>i<length as. int (length (out ! n ! i)) = b))"
proof -
  obtain out g where run: "generator_run k (generator as b) = Inr (out, g)"
    and len: "length out = k"
    and bat: "\<forall>n<k. length (out ! n) = length as \<and>
        (\<forall>i<length as. out ! n ! i = batch_at b (as ! i) n 0)"
    using generator_run_generator [of k as b] by blast
  have "int (length (out ! n ! i)) = b" if "n < k" and "i < length as" for n i
  proof -
    have "as ! i \<in> set as"
      using that by simp
    then have b: "1 \<le> b" "b \<le> int (length (as ! i))"
      using assms by blast+
    have "0 \<le> cursor_after b (as ! i) n 0 \<and> cursor_after b (as ! i) n 0 \<le> int (length (as ! i))"
      using cursor_after_bounds [OF b, of 0 n] by simp
    then have "int (length (batch_at b (as ! i) n 0)) = b"
      unfolding batch_at_def using generator_body_length [OF b] by blast
    with bat that show ?thesis by simp
  qed
  with run len bat show ?thesis by blast
qed

theorem batches_have_batch_size_rows_witness:
  "1 \<le> (2 :: int) \<and> 2 \<le> int (length [10, 11, 12 :: nat]) \<and>
   2 \<le> int (length [20, 21 :: nat]) \<and>
   (\<exists>out g. generator_run 2 (generator [[10, 11, 12 :: nat], [20, 21]] 2) = Inr (out, g) \<and>
      length out = 2 \<and> length (out ! 1) = 2 \<and>
      int (length (out ! 1 ! 0)) = 2 \<and> int (length (out ! 1 ! 1)) = 2)"
proof -
  have h1: "1 \<le> (2 :: int)" by simp
  have h2: "\<forall>a\<in>set [[10, 11, 12 :: nat], [20, 21]]. 2 \<le> int (length a)" by simp
  show ?thesis
    using h1 h2 batches_have_batch_size_rows [OF h1 h2, of 2]
    by (auto simp: less_Suc_eq eval_nat_numeral)
qed

section \<open>Batch size equal to the length; arrays without rows\<close>

lemma generator_run_single:
  "generator_run k \<lparr>arrays = [a], batch_size = b, starts = [s]\<rparr> =
     Inr (map (\<lambda>n. [batch_at b a n s]) [0..<k],
          \<lparr>arrays = [a], batch_size = b, starts = [cursor_after b a k s]\<rparr>)"
  by (simp add: generator_run_closed)

lemma generator_body_empty: "generator_body b [] s = ([], s + b)"
  by (simp add: generator_body_def generator_diff_def slice_def slice_from_def slice_to_def Let_def)

lemma cursor_after_empty: "cursor_after b [] k s = s + int k * b"
  by (induction k arbitrary: s) (simp_all add: generator_body_empty algebra_simps)

lemma batch_at_empty: "batch_at b [] n s = []"
  by (simp add: batch_at_def generator_body_empty)

lemma generator_body_full_first: "generator_body (int (length a)) a 0 = (a, int (length a))"
  using generator_body_direct [of 0 "int (length a)" a] by simp

lemma generator_body_full_later:
  "generator_body (int (length a)) a (int (length a)) = (a, int (length a))"
proof (cases "a = []")
  case True
  then show ?thesis by (simp add: generator_body_empty)
next
  case False
  then show ?thesis
    using generator_body_wrap [of "int (length a)" a "int (length a)"] by simp
qed

lemma cursor_after_full_later:
  "cursor_after (int (length a)) a k (int (length a)) = int (length a)"
  by (induction k) (simp_all add: generator_body_full_later)

lemma cursor_after_full:
  "cursor_after (int (length a)) a k 0 = (if k = 0 then 0 else int (length a))"
  by (cases k) (simp_all add: generator_body_full_first cursor_after_full_later)

lemma batch_at_full: "batch_at (int (length a)) a n 0 = a"
  by (cases "n = 0")
    (simp_all add: batch_at_def cursor_after_full generator_body_full_first
      generator_body_full_later)

text \<open>
  C5, as the code has it. For an array of \<open>L\<close> rows cycled alone with \<open>B = L\<close> from cursor
  0: every production call returns the full array as its batch. The first call takes the
  direct branch (\<open>diff = 0\<close>) and moves the cursor from 0 to \<open>L\<close>; every later call
  finds \<open>diff = L\<close>, concatenates the empty tail \<open>array[L:]\<close> with the full prefix
  \<open>array[:L]\<close>, and leaves the cursor at \<open>L\<close>.
\<close>

theorem full_array_batches:
  "generator_run k (generator [a] (int (length a))) =
     Inr (replicate k [a],
          \<lparr>arrays = [a], batch_size = int (length a),
           starts = [if k = 0 then 0 else int (length a)]\<rparr>) \<and>
   generator_diff (int (length a)) a 0 = 0 \<and>
   generator_diff (int (length a)) a (int (length a)) = int (length a) \<and>
   slice_from a (int (length a)) = [] \<and> slice_to a (int (length a)) = a"
  by (simp add: generator_def generator_run_single batch_at_full cursor_after_full
      map_replicate_const generator_diff_def slice_from_nonneg slice_to_nonneg)

text \<open>
  The cursor is not unchanged by each call: with two rows and \<open>B = 2\<close> the first call
  moves it from 0 to 2.
\<close>

theorem cursor_unchanged_counterexample:
  "generator_next (generator [[10, 11 :: nat]] 2) =
     Inr ([[10, 11]], \<lparr>arrays = [[10, 11]], batch_size = 2, starts = [2]\<rparr>) \<and>
   starts (generator [[10, 11 :: nat]] 2) = [0] \<and> [2] \<noteq> [0 :: int]"
  by code_simp

theorem full_array_batches_witness:
  "generator_run 2 (generator [[10, 11 :: nat]] 2) =
     Inr ([[[10, 11]], [[10, 11]]], \<lparr>arrays = [[10, 11]], batch_size = 2, starts = [2]\<rparr>)"
  using full_array_batches [of 2 "[10, 11 :: nat]"]
  by (simp add: eval_nat_numeral)

text \<open>
  C10. For a generator over arrays one of which has no rows, with \<open>B \<ge> 1\<close>: no production
  call fails, every batch for that array has 0 rows, and its cursor after \<open>k\<close> calls is
  \<open>k * B\<close>.
\<close>

theorem empty_array_cursor_grows:
  assumes "i < length as" and "as ! i = []" and "1 \<le> b"
  shows "\<exists>out g. generator_run k (generator as b) = Inr (out, g) \<and> length out = k \<and>
     (\<forall>n<k. out ! n ! i = [] \<and> length (out ! n ! i) = 0) \<and>
     starts g ! i = int k * b"
proof -
  obtain out g where run: "generator_run k (generator as b) = Inr (out, g)"
    and len: "length out = k"
    and bat: "\<forall>n<k. length (out ! n) = length as \<and>
        (\<forall>i<length as. out ! n ! i = batch_at b (as ! i) n 0)"
    and cur: "\<forall>i<length as. starts g ! i = cursor_after b (as ! i) k 0"
    using generator_run_generator [of k as b] by blast
  have "\<forall>n<k. out ! n ! i = []"
    using bat assms by (simp add: batch_at_empty)
  moreover have "starts g ! i = int k * b"
    using cur assms by (simp add: cursor_after_empty)
  ultimately show ?thesis
    using run len by simp
qed

theorem empty_array_cursor_grows_witness:
  "(1 :: nat) < length [[10, 11 :: nat], []] \<and> [[10, 11 :: nat], []] ! 1 = [] \<and> 1 \<le> (3 :: int) \<and>
   (\<exists>out g. generator_run 2 (generator [[10, 11 :: nat], []] 3) = Inr (out, g) \<and>
      out ! 0 ! 1 = [] \<and> out ! 1 ! 1 = [] \<and> starts g ! 1 = 6)"
proof -
  have h: "(1 :: nat) < length [[10, 11 :: nat], []]" "[[10, 11 :: nat], []] ! 1 = []" "1 \<le> (3 :: int)"
    by simp_all
  show ?thesis
    using h empty_array_cursor_grows [OF h, of 2]
    by (auto simp: less_Suc_eq eval_nat_numeral)
qed

section \<open>Batch size above the length\<close>

lemma generator_body_oversize:
  assumes "int (length a) < b" and "0 \<le> s"
  shows "generator_body b a s =
    (drop (nat s) a @ take (nat (s + (b - int (length a)))) a, s + (b - int (length a)))"
proof -
  have "int (length a) < s + b"
    using assms by simp
  from generator_body_wrap [OF assms(2) this] show ?thesis
    by (simp add: algebra_simps)
qed

lemma cursor_after_oversize:
  assumes "int (length a) < b"
  shows "0 \<le> s \<Longrightarrow> cursor_after b a k s = s + int k * (b - int (length a))"
proof (induction k arbitrary: s)
  case 0
  then show ?case by simp
next
  case (Suc k)
  have "0 \<le> s + (b - int (length a))"
    using assms Suc.prems by simp
  from Suc.IH [OF this] show ?case
    using generator_body_oversize [OF assms Suc.prems]
    by (simp add: algebra_simps)
qed

lemma batch_at_oversize:
  assumes "int (length a) < b"
  shows "batch_at b a n 0 =
    drop (nat (int n * (b - int (length a)))) a @
    take (nat (int n * (b - int (length a)) + (b - int (length a)))) a"
proof -
  have s0: "0 \<le> int n * (b - int (length a))"
    using assms by simp
  have c: "cursor_after b a n 0 = int n * (b - int (length a))"
    using cursor_after_oversize [OF assms, of 0 n] by simp
  show ?thesis
    unfolding batch_at_def c generator_body_oversize [OF assms s0] by simp
qed

text \<open>
  C6, as the code has it. For an array of \<open>L \<ge> 1\<close> rows cycled alone with \<open>L < B \<le> 2 * L\<close>
  from cursor 0: every call takes the wrap branch and adds \<open>B - L\<close> to the cursor, which
  is \<open>k * (B - L)\<close> after \<open>k\<close> calls. On call \<open>n + 1\<close>, as long as
  \<open>(n + 1) * (B - L) \<le> L\<close> (which holds for the first call), \<open>diff = (n + 1) * (B - L)\<close>
  is at most \<open>L\<close>, and the batch, the tail from the cursor followed by the prefix of
  \<open>diff\<close> rows, has exactly \<open>B\<close> rows and contains a row twice.
\<close>

theorem oversize_batch_first_rounds:
  assumes "1 \<le> length a" and "int (length a) < b" and "b \<le> 2 * int (length a)"
    and "int (Suc n) * (b - int (length a)) \<le> int (length a)"
  shows "(\<exists>out g. generator_run n (generator [a] b) = Inr (out, g) \<and>
            starts g = [int n * (b - int (length a))]) \<and>
         b - int (length a) \<le> int (length a) \<and>
         generator_diff b a (int n * (b - int (length a))) = int (Suc n) * (b - int (length a)) \<and>
         (\<exists>out g. generator_run (Suc n) (generator [a] b) = Inr (out, g) \<and>
            starts g = [int (Suc n) * (b - int (length a))] \<and>
            out ! n = [slice_from a (int n * (b - int (length a))) @
                       slice_to a (int (Suc n) * (b - int (length a)))] \<and>
            int (length (out ! n ! 0)) = b \<and>
            \<not> distinct (out ! n ! 0))"
proof -
  let ?L = "int (length a)"
  let ?d = "b - ?L"
  let ?s = "nat (int n * ?d)" and ?e = "nat (int (Suc n) * ?d)"
  have d: "0 < ?d" using assms(2) by simp
  then have s0: "0 \<le> int n * ?d" and e0: "0 \<le> int (Suc n) * ?d"
    by simp_all
  have se: "int (Suc n) * ?d = int n * ?d + ?d"
    by (simp add: algebra_simps)
  have s_lt_e: "?s < ?e" using d s0 se by linarith
  have e_le: "?e \<le> length a" using assms(4) e0 by linarith
  have s_lt: "?s < length a" using s_lt_e e_le by (rule less_le_trans)
  have run: "generator_run k (generator [a] b) =
      Inr (map (\<lambda>n. [batch_at b a n 0]) [0..<k],
           \<lparr>arrays = [a], batch_size = b, starts = [int k * ?d]\<rparr>)" for k
    using cursor_after_oversize [OF assms(2), of 0 k]
    by (simp add: generator_def generator_run_single)
  have nth: "map (\<lambda>n. [batch_at b a n 0]) [0..<Suc n] ! n = [batch_at b a n 0]"
    using nth_map [of n "[0..<Suc n]" "\<lambda>n. [batch_at b a n 0]"]
    by (simp del: upt_Suc add: nth_upt)
  have batch: "batch_at b a n 0 = drop ?s a @ take ?e a"
    unfolding se by (rule batch_at_oversize [OF assms(2)])
  have sl: "slice_from a (int n * ?d) @ slice_to a (int (Suc n) * ?d) = drop ?s a @ take ?e a"
    using s0 e0 by (simp only: slice_from_nonneg slice_to_nonneg)
  have "length (drop ?s a @ take ?e a) = (length a - ?s) + ?e"
    using e_le by simp
  also have "int \<dots> = b"
    using s_lt e0 s0 se by (simp add: nat_add_distrib of_nat_diff)
  finally have len: "int (length (batch_at b a n 0)) = b"
    using batch by simp
  have "a ! ?s \<in> set (drop ?s a)"
    using s_lt by (metis Cons_nth_drop_Suc list.set_intros(1))
  moreover have "a ! ?s \<in> set (take ?e a)"
    using s_lt_e e_le by (metis nth_take in_set_conv_nth length_take min.absorb2)
  ultimately have dup: "\<not> distinct (batch_at b a n 0)"
    unfolding batch by auto
  have diff: "generator_diff b a (int n * ?d) = int (Suc n) * ?d"
    by (simp add: generator_diff_def algebra_simps)
  have "?d \<le> ?L" using assms(3) by simp
  with run [of n] run [of "Suc n"] nth batch sl len dup diff show ?thesis
    by simp
qed

theorem oversize_batch_first_rounds_witness:
  "(\<exists>out g. generator_run (Suc 1) (generator [[10, 11, 12, 13 :: nat]] 6) = Inr (out, g) \<and>
      starts g = [4] \<and> out ! 1 = [[12, 13, 10, 11, 12, 13]] \<and> \<not> distinct (out ! 1 ! 0))"
proof -
  have h: "1 \<le> length [10, 11, 12, 13 :: nat]" "int (length [10, 11, 12, 13 :: nat]) < 6"
    "(6 :: int) \<le> 2 * int (length [10, 11, 12, 13 :: nat])"
    "int (Suc 1) * (6 - int (length [10, 11, 12, 13 :: nat])) \<le> int (length [10, 11, 12, 13 :: nat])"
    by simp_all
  show ?thesis
    using oversize_batch_first_rounds [OF h]
    by (auto simp: slice_from_def slice_to_def slice_index_def)
qed

text \<open>
  With four rows and \<open>B = 7\<close> the second call finds \<open>diff = 6 > 4\<close> and returns five rows.
\<close>

theorem oversize_every_call_counterexample:
  "generator_run 2 (generator [[10, 11, 12, 13 :: nat]] 7) =
     Inr ([[[10, 11, 12, 13, 10, 11, 12]], [[13, 10, 11, 12, 13]]],
          \<lparr>arrays = [[10, 11, 12, 13]], batch_size = 7, starts = [6]\<rparr>) \<and>
   generator_diff 7 [10, 11, 12, 13 :: nat] 3 = 6 \<and>
   \<not> (6 \<le> int (length [10, 11, 12, 13 :: nat])) \<and>
   int (length [13, 10, 11, 12, 13 :: nat]) \<noteq> 7"
  by code_simp

section \<open>Misconfiguration\<close>

text \<open>
  C8. A generator constructed with \<open>B \<le> 0\<close>, or over arrays one of which has no rows:
  construction stores the arguments as they are and raises nothing; no production call
  fails either; and no batch of a misconfigured array (any array when \<open>B \<le> 0\<close>, an empty
  array otherwise) is a batch of \<open>B \<ge> 1\<close> rows: it is empty or has a number of rows other
  than \<open>B\<close>, and it is empty whenever the array is.
\<close>

theorem misconfigured_never_correct:
  assumes "b \<le> 0 \<or> (\<exists>a\<in>set as. length a = 0)"
  shows "generator as b = \<lparr>arrays = as, batch_size = b, starts = replicate (length as) 0\<rparr> \<and>
     (\<exists>out g. generator_run k (generator as b) = Inr (out, g) \<and> length out = k \<and>
        (\<forall>n<k. \<forall>i<length as. b \<le> 0 \<or> length (as ! i) = 0 \<longrightarrow>
           \<not> (1 \<le> b \<and> int (length (out ! n ! i)) = b) \<and>
           (out ! n ! i = [] \<or> int (length (out ! n ! i)) \<noteq> b) \<and>
           (length (as ! i) = 0 \<longrightarrow> out ! n ! i = [])))"
proof -
  obtain out g where run: "generator_run k (generator as b) = Inr (out, g)"
    and len: "length out = k"
    and bat: "\<forall>n<k. length (out ! n) = length as \<and>
        (\<forall>i<length as. out ! n ! i = batch_at b (as ! i) n 0)"
    using generator_run_generator [of k as b] by blast
  have "\<not> (1 \<le> b \<and> int (length (out ! n ! i)) = b) \<and>
        (out ! n ! i = [] \<or> int (length (out ! n ! i)) \<noteq> b) \<and>
        (length (as ! i) = 0 \<longrightarrow> out ! n ! i = [])"
    if "n < k" and "i < length as" and mis: "b \<le> 0 \<or> length (as ! i) = 0" for n i
  proof -
    have e: "out ! n ! i = []" if "length (as ! i) = 0"
      using bat \<open>n < k\<close> \<open>i < length as\<close> that by (simp add: batch_at_empty)
    from mis show ?thesis
    proof
      assume "b \<le> 0"
      then have "out ! n ! i = [] \<or> int (length (out ! n ! i)) \<noteq> b"
        by (cases "out ! n ! i") auto
      with \<open>b \<le> 0\<close> e show ?thesis by auto
    next
      assume "length (as ! i) = 0"
      with e show ?thesis by auto
    qed
  qed
  with run len show ?thesis
    by (simp add: generator_def)
qed

theorem misconfigured_never_correct_witness:
  "(\<exists>out g. generator_run 2 (generator [[10, 11, 12 :: nat], []] (- 1)) = Inr (out, g) \<and>
      int (length (out ! 0 ! 0)) \<noteq> - 1 \<and> out ! 1 ! 1 = [])"
proof -
  have h: "(- 1 :: int) \<le> 0 \<or> (\<exists>a\<in>set [[10, 11, 12 :: nat], []]. length a = 0)" by simp
  show ?thesis
    using misconfigured_never_correct [OF h, of 2]
    by (auto simp: less_Suc_eq eval_nat_numeral)
qed

section \<open>A full cycle\<close>

lemma ceil_div_covers:
  assumes "1 \<le> b"
  shows "l \<le> ceil_div l b * b"
proof -
  let ?m = "l + b - 1"
  have "?m div b * b + ?m mod b = ?m"
    by (rule div_mult_mod_eq)
  moreover have "?m mod b < b"
    using assms by simp
  ultimately show ?thesis
    using assms unfolding ceil_div_def by linarith
qed

lemma generator_body_rows:
  assumes B: "1 \<le> B" "B \<le> length a" and s: "s \<le> length a"
  shows "\<exists>c\<le>length a.
     generator_body (int B) a (int s) =
       (map (\<lambda>j. a ! ((s + j) mod length a)) [0..<B], int c) \<and>
     c mod length a = (s + B) mod length a"
proof (cases "s + B \<le> length a")
  case True
  have "generator_body (int B) a (int s) = (take B (drop s a), int (s + B))"
    using generator_body_direct [of "int s" "int B" a] True by simp
  moreover have "take B (drop s a) = map (\<lambda>j. a ! ((s + j) mod length a)) [0..<B]"
    using True by (auto simp: list_eq_iff_nth_eq)
  ultimately show ?thesis
    using True by (intro exI [of _ "s + B"]) simp
next
  case False
  let ?d = "s + B - length a"
  have d: "int s + int B - int (length a) = int ?d"
    using False by linarith
  have "int (length a) < int s + int B"
    using False by linarith
  from generator_body_wrap [of "int s" a "int B", OF _ this]
  have body: "generator_body (int B) a (int s) = (drop s a @ take ?d a, int ?d)"
    unfolding d by simp
  have len: "length (drop s a @ take ?d a) = B"
    using False B s by simp
  have "(drop s a @ take ?d a) ! j = a ! ((s + j) mod length a)" if "j < B" for j
  proof (cases "j < length a - s")
    case True
    then show ?thesis by (simp add: nth_append)
  next
    case False
    then have ge: "length a \<le> s + j" by simp
    have "s + j - length a < length a"
      using that B s by linarith
    then have "(s + j) mod length a = s + j - length a"
      using ge by (simp add: le_mod_geq)
    moreover have "j - (length a - s) = s + j - length a"
      using s ge by simp
    moreover have "s + j - length a < ?d"
      using that ge by linarith
    ultimately show ?thesis
      using False s by (simp add: nth_append)
  qed
  then have rows: "drop s a @ take ?d a = map (\<lambda>j. a ! ((s + j) mod length a)) [0..<B]"
    using len by (simp add: list_eq_iff_nth_eq)
  have "?d mod length a = (s + B) mod length a"
    using False by (simp add: le_mod_geq)
  moreover have "?d \<le> length a"
    using B s by simp
  ultimately show ?thesis
    using body rows by (intro exI [of _ ?d]) simp
qed

lemma upt_shift_append:
  "map f [0..<m + n] = map f [0..<m] @ map (\<lambda>j. f (m + j)) [0..<n]"
proof -
  have "[0..<m + n] = [0..<m] @ map (\<lambda>j. m + j) [0..<n]"
    using upt_add_eq_append [of 0 m n] map_add_upt [of m n] by (simp add: add.commute)
  then show ?thesis by (simp add: o_def)
qed

lemma rounds_rows:
  assumes B: "1 \<le> B" "B \<le> length a"
  shows "s \<le> length a \<Longrightarrow>
    \<exists>c\<le>length a. cursor_after (int B) a k (int s) = int c \<and>
      c mod length a = (s + k * B) mod length a \<and>
      concat (map (\<lambda>n. batch_at (int B) a n (int s)) [0..<k]) =
        map (\<lambda>j. a ! ((s + j) mod length a)) [0..<k * B]"
proof (induction k arbitrary: s)
  case 0
  then show ?case by simp
next
  case (Suc k)
  obtain s1 where s1: "s1 \<le> length a"
    and body: "generator_body (int B) a (int s) =
       (map (\<lambda>j. a ! ((s + j) mod length a)) [0..<B], int s1)"
    and m1: "s1 mod length a = (s + B) mod length a"
    using generator_body_rows [OF B Suc.prems] by blast
  obtain c where c: "c \<le> length a"
    and cur: "cursor_after (int B) a k (int s1) = int c"
    and mc: "c mod length a = (s1 + k * B) mod length a"
    and rows: "concat (map (\<lambda>n. batch_at (int B) a n (int s1)) [0..<k]) =
        map (\<lambda>j. a ! ((s1 + j) mod length a)) [0..<k * B]"
    using Suc.IH [OF s1] by blast
  have shift: "(s1 + j) mod length a = (s + (B + j)) mod length a" for j
    using m1 by (metis add.assoc mod_add_left_eq)
  have upt: "[0..<Suc k] = 0 # map Suc [0..<k]"
    by (simp only: map_Suc_upt upt_conv_Cons zero_less_Suc)
  have first: "batch_at (int B) a 0 (int s) = map (\<lambda>j. a ! ((s + j) mod length a)) [0..<B]"
    using body by (simp add: batch_at_def)
  have "concat (map (\<lambda>n. batch_at (int B) a n (int s)) [0..<Suc k]) =
      map (\<lambda>j. a ! ((s + j) mod length a)) [0..<B] @
      map (\<lambda>j. a ! ((s + (B + j)) mod length a)) [0..<k * B]"
    unfolding upt using first rows body by (simp add: o_def batch_at_Suc shift)
  also have "\<dots> = map (\<lambda>j. a ! ((s + j) mod length a)) [0..<B + k * B]"
    by (rule upt_shift_append [symmetric])
  finally have r: "concat (map (\<lambda>n. batch_at (int B) a n (int s)) [0..<Suc k]) =
      map (\<lambda>j. a ! ((s + j) mod length a)) [0..<Suc k * B]"
    by simp
  have "c mod length a = (s + Suc k * B) mod length a"
    using mc shift [of "k * B"] by (simp add: algebra_simps)
  with c cur body r show ?case
    by (intro exI [of _ c]) simp
qed

lemma mset_rotate_same: "mset (rotate n xs) = mset xs"
proof -
  let ?k = "n mod length xs"
  have "mset xs = mset (take ?k xs @ drop ?k xs)"
    by simp
  also have "\<dots> = mset (drop ?k xs) + mset (take ?k xs)"
    unfolding mset_append by (rule add.commute)
  finally show ?thesis
    by (simp add: rotate_drop_take)
qed

lemma rows_cover:
  assumes "length a \<le> n"
  shows "mset a \<subseteq># mset (map (\<lambda>j. a ! ((s + j) mod length a)) [0..<n])"
proof -
  let ?f = "\<lambda>j. a ! ((s + j) mod length a)"
  have "map ?f [0..<length a] = rotate s a"
  proof (rule nth_equalityI)
    show "length (map ?f [0..<length a]) = length (rotate s a)"
      by simp
  next
    fix i
    assume "i < length (map ?f [0..<length a])"
    then have i: "i < length a" by simp
    then have "rotate s a ! i = a ! ((s + i) mod length a)"
      by (rule nth_rotate)
    with i show "map ?f [0..<length a] ! i = rotate s a ! i"
      by simp
  qed
  moreover have "map ?f [0..<n] =
      map ?f [0..<length a] @ map (\<lambda>j. ?f (length a + j)) [0..<n - length a]"
    using upt_shift_append [of ?f "length a" "n - length a"] assms by simp
  ultimately have "mset (map ?f [0..<n]) =
      mset a + mset (map (\<lambda>j. ?f (length a + j)) [0..<n - length a])"
    by (simp add: mset_rotate_same)
  then show ?thesis by simp
qed

text \<open>
  C4. For one array of \<open>L\<close> rows cycled alone with \<open>1 \<le> B \<le> L\<close> from a cursor \<open>s\<close> with
  \<open>0 \<le> s < L\<close>: the \<open>ceil(L/B)\<close> production calls succeed, the rows of their batches taken
  together contain every row of the array at least as often as the array does, so every
  row is in one of the batches, and the cursor then is congruent to \<open>s + ceil(L/B) * B\<close>
  modulo \<open>L\<close>.
\<close>

theorem full_cycle_covers_all_rows:
  assumes "1 \<le> b" and "b \<le> int (length a)" and "0 \<le> s" and "s < int (length a)"
  shows "\<exists>out g c.
     generator_run (ceil_div (length a) (nat b)) \<lparr>arrays = [a], batch_size = b, starts = [s]\<rparr>
       = Inr (out, g) \<and>
     length out = ceil_div (length a) (nat b) \<and>
     mset a \<subseteq># mset (concat (map (\<lambda>batches. batches ! 0) out)) \<and>
     set a \<subseteq> (\<Union>batches\<in>set out. set (batches ! 0)) \<and>
     starts g = [c] \<and>
     c mod int (length a) = (s + int (ceil_div (length a) (nat b)) * b) mod int (length a)"
proof -
  let ?B = "nat b" and ?s = "nat s" and ?L = "length a"
  let ?k = "ceil_div ?L ?B"
  have B: "1 \<le> ?B" "?B \<le> ?L" and s: "?s \<le> ?L"
    using assms by simp_all
  have b: "int ?B = b" and s': "int ?s = s"
    using assms by simp_all
  obtain c where cur: "cursor_after b a ?k s = int c"
    and mc: "c mod ?L = (?s + ?k * ?B) mod ?L"
    and rows: "concat (map (\<lambda>n. batch_at b a n s) [0..<?k]) =
        map (\<lambda>j. a ! ((?s + j) mod ?L)) [0..<?k * ?B]"
    using rounds_rows [OF B s, of ?k] unfolding b s' by blast
  let ?out = "map (\<lambda>n. [batch_at b a n s]) [0..<?k]"
  let ?g = "\<lparr>arrays = [a], batch_size = b, starts = [int c]\<rparr>"
  have run: "generator_run ?k \<lparr>arrays = [a], batch_size = b, starts = [s]\<rparr> = Inr (?out, ?g)"
    by (simp add: generator_run_single cur)
  have cat: "concat (map (\<lambda>batches. batches ! 0) ?out) =
      map (\<lambda>j. a ! ((?s + j) mod ?L)) [0..<?k * ?B]"
    using rows by (simp add: o_def)
  have cover: "mset a \<subseteq># mset (concat (map (\<lambda>batches. batches ! 0) ?out))"
    unfolding cat using ceil_div_covers [OF B(1), of ?L] by (rule rows_cover)
  have "set a \<subseteq> set (concat (map (\<lambda>batches. batches ! 0) ?out))"
    using set_mset_mono [OF cover] by simp
  then have sets: "set a \<subseteq> (\<Union>batches\<in>set ?out. set (batches ! 0))"
    by simp
  have "int (c mod ?L) = int ((?s + ?k * ?B) mod ?L)"
    using mc by simp
  then have "int c mod int ?L = (int ?s + int ?k * int ?B) mod int ?L"
    by (simp only: zmod_int of_nat_add of_nat_mult)
  then have cong: "int c mod int ?L = (s + int ?k * b) mod int ?L"
    unfolding b s' .
  from run cover sets cong show ?thesis
    by (intro exI [of _ ?out] exI [of _ ?g] exI [of _ "int c"]) simp
qed

theorem full_cycle_covers_all_rows_witness:
  "ceil_div (length [10, 11, 12 :: nat]) (nat 2) = 2 \<and>
   (\<exists>out g c.
     generator_run 2 \<lparr>arrays = [[10, 11, 12 :: nat]], batch_size = 2, starts = [1]\<rparr> = Inr (out, g) \<and>
     mset [10, 11, 12 :: nat] \<subseteq># mset (concat (map (\<lambda>batches. batches ! 0) out)) \<and>
     starts g = [c] \<and> c mod 3 = 2)"
proof -
  have h: "1 \<le> (2 :: int)" "2 \<le> int (length [10, 11, 12 :: nat])" "0 \<le> (1 :: int)"
    "1 < int (length [10, 11, 12 :: nat])"
    by simp_all
  have k: "ceil_div (length [10, 11, 12 :: nat]) (nat 2) = 2"
    by (simp add: ceil_div_def)
  show ?thesis
    using full_cycle_covers_all_rows [OF h] unfolding k by auto
qed

section \<open>The relation and the function; determinism\<close>

lemma for_steps_generator_for:
  "for_steps b items ss batches r \<Longrightarrow> generator_for b items ss batches = r"
  by (induction rule: for_steps.induct)
    (simp_all add: generator_body_def generator_diff_def Let_def)

lemma generator_for_for_steps:
  "for_steps b items ss batches (generator_for b items ss batches)"
proof (induction b items ss batches rule: generator_for.induct)
  case (1 b ss batches)
  show ?case by (simp add: for_end)
next
  case (2 b i array rest ss batches)
  show ?case
  proof (cases "i < length ss")
    case False
    then show ?thesis by (simp add: for_index_error)
  next
    case True
    show ?thesis
    proof (cases "ss ! i + b - int (length array) \<le> 0")
      case d: True
      have body: "generator_body b array (ss ! i) = (slice array (ss ! i) (ss ! i + b), ss ! i + b)"
        using d by (simp add: generator_body_def generator_diff_def Let_def)
      from 2 [OF True body [symmetric]] show ?thesis
        using True d body by (simp add: for_direct)
    next
      case d: False
      have body: "generator_body b array (ss ! i) =
          (slice_from array (ss ! i) @ slice_to array (ss ! i + b - int (length array)),
           ss ! i + b - int (length array))"
        using d by (simp add: generator_body_def generator_diff_def Let_def)
      from 2 [OF True body [symmetric]] show ?thesis
        using True d body by (simp add: for_wrap)
    qed
  qed
qed

lemma for_steps_iff: "for_steps b items ss batches r \<longleftrightarrow> r = generator_for b items ss batches"
  using for_steps_generator_for generator_for_for_steps by blast

lemma yields_iff: "yields g r \<longleftrightarrow> r = generator_next g"
  by (auto simp: yields.simps for_steps_iff generator_next_def split: sum.splits)

lemma produces_iff:
  "produces g out g' \<longleftrightarrow> generator_run (length out) g = Inr (out, g')"
proof (induction out arbitrary: g)
  case Nil
  show ?case by (auto simp: produces.simps [of _ "[]"])
next
  case (Cons batches out)
  show ?case
    by (auto simp: produces.simps [of _ "batches # out"] yields_iff Cons.IH
        split: sum.splits)
qed

lemma for_steps_deterministic:
  "for_steps b items ss batches r \<Longrightarrow> for_steps b items ss batches r' \<Longrightarrow> r' = r"
proof (induction arbitrary: r' rule: for_steps.induct)
  case (for_end b batches ss)
  then show ?case by (auto elim: for_steps.cases)
next
  case (for_direct i ss b array rest batches r)
  from for_direct.prems for_direct.hyps(1,2) have
    "for_steps b rest (ss[i := ss ! i + b]) (batches @ [slice array (ss ! i) (ss ! i + b)]) r'"
    by (auto elim: for_steps.cases)
  then show ?case by (rule for_direct.IH)
next
  case (for_wrap i ss b array rest batches r)
  from for_wrap.prems for_wrap.hyps(1,2) have
    "for_steps b rest (ss[i := ss ! i + b - int (length array)])
       (batches @ [slice_from array (ss ! i) @ slice_to array (ss ! i + b - int (length array))]) r'"
    by (auto elim: for_steps.cases)
  then show ?case by (rule for_wrap.IH)
next
  case (for_index_error i ss b array rest batches)
  then show ?case by (auto elim: for_steps.cases)
qed

lemma yields_deterministic: "yields g r \<Longrightarrow> yields g r' \<Longrightarrow> r' = r"
  by (auto simp: yields.simps dest: for_steps_deterministic)

lemma produces_deterministic:
  "produces g out g' \<Longrightarrow> produces g out2 g2 \<Longrightarrow> length out2 = length out \<Longrightarrow>
   out2 = out \<and> g2 = g'"
proof (induction arbitrary: out2 g2 rule: produces.induct)
  case (produces_none g)
  then show ?case by (auto elim: produces.cases)
next
  case (produces_next g batches g' out g'')
  from produces_next.prems obtain batches2 h out' where
    o: "out2 = batches2 # out'" and y: "yields g (Inr (batches2, h))" and p: "produces h out' g2"
    by (auto elim: produces.cases)
  from yields_deterministic [OF produces_next.hyps(1) y] have "batches2 = batches" and "h = g'"
    by simp_all
  with produces_next.IH [of out' g2] p o produces_next.prems(2) show ?case
    by simp
qed


text \<open>
  C9. Two runs that start from the same arrays, the same batch size and the same cursors
  and make the same number of calls yield the same batches, call after call, and leave
  the same state; a single call has at most one outcome. From a state with one cursor
  per array a run of every length exists. The relation holds exactly where the function
  \<open>generator_run\<close> returns the run, so the batches are a function of the arrays, the
  batch size and the cursors.
\<close>

theorem runs_deterministic:
  "(produces g1 out1 g1' \<and> produces g2 out2 g2' \<and>
    arrays g1 = arrays g2 \<and> batch_size g1 = batch_size g2 \<and> starts g1 = starts g2 \<and>
    length out1 = length out2 \<longrightarrow> out1 = out2 \<and> g1' = g2') \<and>
   (yields g r \<and> yields g r' \<longrightarrow> r = r') \<and>
   (length (starts g) = length (arrays g) \<longrightarrow> (\<exists>out g'. produces g out g' \<and> length out = k)) \<and>
   (produces g out g' \<longleftrightarrow> generator_run (length out) g = Inr (out, g'))"
proof (intro conjI impI)
  assume h: "produces g1 out1 g1' \<and> produces g2 out2 g2' \<and>
    arrays g1 = arrays g2 \<and> batch_size g1 = batch_size g2 \<and> starts g1 = starts g2 \<and>
    length out1 = length out2"
  then have "g1 = g2" by simp
  with h have "produces g2 out2 g2'" and "produces g2 out1 g1'" and "length out1 = length out2"
    by simp_all
  then have "out1 = out2 \<and> g1' = g2'"
    by (rule produces_deterministic)
  then show "out1 = out2" and "g1' = g2'" by simp_all
next
  assume "yields g r \<and> yields g r'"
  then have "yields g r'" and "yields g r" by simp_all
  then show "r = r'" by (rule yields_deterministic)
next
  assume wf: "length (starts g) = length (arrays g)"
  obtain out g' where "generator_run k g = Inr (out, g')" and "length out = k"
    using generator_run_nth [OF wf, of k] by blast
  then have "produces g out g' \<and> length out = k"
    by (simp add: produces_iff)
  then show "\<exists>out g'. produces g out g' \<and> length out = k" by blast
next
  show "produces g out g' \<longleftrightarrow> generator_run (length out) g = Inr (out, g')"
    by (rule produces_iff)
qed

theorem runs_deterministic_witness:
  "produces (generator [[10, 11, 12 :: nat]] 2) [[[10, 11]], [[12, 10]]]
     \<lparr>arrays = [[10, 11, 12]], batch_size = 2, starts = [1]\<rparr> \<and>
   produces \<lparr>arrays = [[10, 11, 12 :: nat]], batch_size = 2, starts = [0]\<rparr> [[[10, 11]], [[12, 10]]]
     \<lparr>arrays = [[10, 11, 12]], batch_size = 2, starts = [1]\<rparr> \<and>
   yields (generator [[10, 11, 12 :: nat]] 2)
     (Inr ([[10, 11]], \<lparr>arrays = [[10, 11, 12]], batch_size = 2, starts = [2]\<rparr>)) \<and>
   (\<exists>out g'. produces (generator [[10, 11, 12 :: nat]] 2) out g' \<and> length out = 5)"
proof -
  let ?g1 = "generator [[10, 11, 12 :: nat]] 2"
  let ?g2 = "\<lparr>arrays = [[10, 11, 12 :: nat]], batch_size = 2, starts = [0]\<rparr>"
  let ?out = "[[[10, 11]], [[12, 10 :: nat]]]"
  let ?g' = "\<lparr>arrays = [[10, 11, 12 :: nat]], batch_size = 2, starts = [1]\<rparr>"
  let ?r = "Inr ([[10, 11 :: nat]], \<lparr>arrays = [[10, 11, 12 :: nat]], batch_size = 2, starts = [2]\<rparr>)"
  have run: "generator_run (Suc (Suc 0)) ?g1 = Inr (?out, ?g')"
    by code_simp
  have nxt: "generator_next ?g1 = ?r"
    by code_simp
  have y: "yields ?g1 ?r"
    using nxt by (simp add: yields_iff)
  note T = runs_deterministic [of ?g1 ?out ?g' ?g2 ?out ?g' ?g1 ?r ?r 5 ?out ?g']
  have p1: "produces ?g1 ?out ?g'"
    using T run by simp
  have p2: "produces ?g2 ?out ?g'"
    using p1 by (simp add: generator_def)
  have "\<exists>out g'. produces ?g1 out g' \<and> length out = 5"
    using T by (simp add: generator_def)
  with p1 p2 y show ?thesis by simp
qed

section \<open>Several arrays\<close>

lemma cursor_after_cycle:
  assumes "1 \<le> B" and "B \<le> length a"
  shows "\<exists>c\<le>length a. cursor_after (int B) a k 0 = int c \<and>
    c mod length a = (k * B) mod length a"
  using rounds_rows [OF assms, of 0 k] by auto

lemma batch_at_rows:
  assumes "1 \<le> B" and "B \<le> length a"
  shows "batch_at (int B) a n 0 = map (\<lambda>j. a ! ((n * B + j) mod length a)) [0..<B]"
proof -
  obtain c where c: "c \<le> length a" and cur: "cursor_after (int B) a n 0 = int c"
    and mc: "c mod length a = (n * B) mod length a"
    using cursor_after_cycle [OF assms, of n] by blast
  obtain c' where body: "generator_body (int B) a (int c) =
      (map (\<lambda>j. a ! ((c + j) mod length a)) [0..<B], int c')"
    using generator_body_rows [OF assms c] by blast
  have "(c + j) mod length a = (n * B + j) mod length a" for j
    using mc by (metis mod_add_left_eq)
  then show ?thesis
    using cur body by (simp add: batch_at_def)
qed

text \<open>
  C7, as the code has it. For arrays cycled together with batch size \<open>B\<close>: every
  production call returns one batch per array, and the batches and the cursor of the
  array at position \<open>i\<close> over \<open>k\<close> calls are those of a generator over that array alone
  with the same \<open>B\<close>. When \<open>1 \<le> B \<le> L\<close> for the length \<open>L\<close> of every array, every batch
  of every call has exactly \<open>B\<close> rows, the batch of array \<open>i\<close> in call \<open>n + 1\<close> is its rows
  at the indices \<open>(n * B + j) mod L\<^sub>i\<close> for \<open>j < B\<close>, and its cursor after \<open>k\<close> calls lies
  between 0 and \<open>L\<^sub>i\<close> and is congruent to \<open>k * B\<close> modulo \<open>L\<^sub>i\<close>: it depends on the rows
  and the length of that array, on \<open>B\<close> and on the number of calls only.
\<close>

theorem lock_step_independent:
  assumes "i < length as"
  shows "\<exists>out g out1 g1.
     generator_run k (generator as b) = Inr (out, g) \<and>
     generator_run k (generator [as ! i] b) = Inr (out1, g1) \<and>
     length out = k \<and> length out1 = k \<and>
     (\<forall>n<k. length (out ! n) = length as \<and> out1 ! n = [out ! n ! i]) \<and>
     length (starts g) = length as \<and> starts g1 = [starts g ! i] \<and>
     (1 \<le> b \<and> (\<forall>a\<in>set as. b \<le> int (length a)) \<longrightarrow>
        (\<forall>n<k. (\<forall>j<length as. int (length (out ! n ! j)) = b) \<and>
           out ! n ! i =
             map (\<lambda>j. as ! i ! ((n * nat b + j) mod length (as ! i))) [0..<nat b]) \<and>
        0 \<le> starts g ! i \<and> starts g ! i \<le> int (length (as ! i)) \<and>
        starts g ! i mod int (length (as ! i)) = (int k * b) mod int (length (as ! i)))"
proof -
  obtain out g where run: "generator_run k (generator as b) = Inr (out, g)"
    and len: "length out = k" "length (starts g) = length as"
    and bat: "\<forall>n<k. length (out ! n) = length as \<and>
        (\<forall>i<length as. out ! n ! i = batch_at b (as ! i) n 0)"
    and cur: "\<forall>i<length as. starts g ! i = cursor_after b (as ! i) k 0"
    using generator_run_generator [of k as b] by blast
  let ?out1 = "map (\<lambda>n. [batch_at b (as ! i) n 0]) [0..<k]"
  let ?g1 = "\<lparr>arrays = [as ! i], batch_size = b, starts = [cursor_after b (as ! i) k 0]\<rparr>"
  have run1: "generator_run k (generator [as ! i] b) = Inr (?out1, ?g1)"
    by (simp add: generator_def generator_run_single)
  have alone: "\<forall>n<k. length (out ! n) = length as \<and> ?out1 ! n = [out ! n ! i]"
    using bat assms by simp
  have st: "starts ?g1 = [starts g ! i]"
    using cur assms by simp
  have sized: "(\<forall>n<k. (\<forall>j<length as. int (length (out ! n ! j)) = b) \<and>
           out ! n ! i =
             map (\<lambda>j. as ! i ! ((n * nat b + j) mod length (as ! i))) [0..<nat b]) \<and>
        0 \<le> starts g ! i \<and> starts g ! i \<le> int (length (as ! i)) \<and>
        starts g ! i mod int (length (as ! i)) = (int k * b) mod int (length (as ! i))"
    if b1: "1 \<le> b" and ble: "\<forall>a\<in>set as. b \<le> int (length a)"
  proof -
    let ?B = "nat b"
    have B: "1 \<le> ?B" and bB: "int ?B = b"
      using b1 by simp_all
    have Ble: "?B \<le> length (as ! j)" if "j < length as" for j
    proof -
      have "as ! j \<in> set as" using that by simp
      with ble have "b \<le> int (length (as ! j))" by blast
      then show ?thesis by simp
    qed
    have rows: "batch_at b (as ! j) n 0 =
        map (\<lambda>m. as ! j ! ((n * ?B + m) mod length (as ! j))) [0..<?B]"
      if "j < length as" for j n
      using batch_at_rows [OF B Ble [OF that], of n] unfolding bB .
    have count: "int (length (out ! n ! j)) = b" if "n < k" and "j < length as" for n j
      using bat that rows [OF that(2), of n] bB by simp
    have content: "out ! n ! i =
        map (\<lambda>j. as ! i ! ((n * ?B + j) mod length (as ! i))) [0..<?B]" if "n < k" for n
      using bat that assms rows [OF assms, of n] by simp
    obtain c where c: "c \<le> length (as ! i)"
      and cc: "cursor_after b (as ! i) k 0 = int c"
      and mc: "c mod length (as ! i) = (k * ?B) mod length (as ! i)"
      using cursor_after_cycle [OF B Ble [OF assms], of k] unfolding bB by blast
    have "int (c mod length (as ! i)) = int ((k * ?B) mod length (as ! i))"
      using mc by simp
    then have "int c mod int (length (as ! i)) = (int k * int ?B) mod int (length (as ! i))"
      by (simp only: zmod_int of_nat_mult)
    then have cong: "int c mod int (length (as ! i)) = (int k * b) mod int (length (as ! i))"
      unfolding bB .
    have si: "starts g ! i = int c"
      using cur assms cc by simp
    from count content c cong si show ?thesis by simp
  qed
  from run run1 len alone st sized show ?thesis
    by (intro exI [of _ out] exI [of _ g] exI [of _ ?out1] exI [of _ ?g1]) simp
qed

theorem lock_step_independent_witness:
  "(\<exists>out g out1 g1.
     generator_run 3
       (generator [[10, 11, 12, 13, 14, 15, 16, 17, 18, 19 :: nat], [20, 21, 22, 23, 24, 25, 26]] 4)
       = Inr (out, g) \<and>
     generator_run 3 (generator [[20, 21, 22, 23, 24, 25, 26 :: nat]] 4) = Inr (out1, g1) \<and>
     length (out ! 1) = 2 \<and> out1 ! 1 = [out ! 1 ! 1] \<and> starts g1 = [starts g ! 1] \<and>
     int (length (out ! 1 ! 0)) = 4 \<and> out ! 1 ! 1 = [24, 25, 26, 20] \<and>
     starts g ! 1 mod 7 = 5)"
proof -
  let ?a0 = "[10, 11, 12, 13, 14, 15, 16, 17, 18, 19 :: nat]"
  let ?a1 = "[20, 21, 22, 23, 24, 25, 26 :: nat]"
  let ?as = "[?a0, ?a1]"
  have h: "(1 :: nat) < length ?as" by simp
  have h2: "1 \<le> (4 :: int) \<and> (\<forall>a\<in>set ?as. 4 \<le> int (length a))" by simp
  have i1: "?as ! 1 = ?a1" by simp
  from lock_step_independent [OF h, of 3 4] obtain out g out1 g1 where
    r: "generator_run 3 (generator ?as 4) = Inr (out, g)"
    and r1: "generator_run 3 (generator [?as ! 1] 4) = Inr (out1, g1)"
    and al: "\<forall>n<3. length (out ! n) = length ?as \<and> out1 ! n = [out ! n ! 1]"
    and st: "starts g1 = [starts g ! 1]"
    and sz: "1 \<le> (4 :: int) \<and> (\<forall>a\<in>set ?as. 4 \<le> int (length a)) \<longrightarrow>
        (\<forall>n<3. (\<forall>j<length ?as. int (length (out ! n ! j)) = 4) \<and>
           out ! n ! 1 = map (\<lambda>j. ?as ! 1 ! ((n * nat 4 + j) mod length (?as ! 1))) [0..<nat 4]) \<and>
        0 \<le> starts g ! 1 \<and> starts g ! 1 \<le> int (length (?as ! 1)) \<and>
        starts g ! 1 mod int (length (?as ! 1)) = (int 3 * 4) mod int (length (?as ! 1))"
    by blast
  from sz h2 have all: "\<forall>n<3. (\<forall>j<length ?as. int (length (out ! n ! j)) = 4) \<and>
           out ! n ! 1 = map (\<lambda>j. ?as ! 1 ! ((n * nat 4 + j) mod length (?as ! 1))) [0..<nat 4]"
    and md: "starts g ! 1 mod int (length (?as ! 1)) = (int 3 * 4) mod int (length (?as ! 1))"
    by blast+
  have one: "(1 :: nat) < 3" and zero: "(0 :: nat) < length ?as"
    by simp_all
  from al one have a: "length (out ! 1) = length ?as" and b: "out1 ! 1 = [out ! 1 ! 1]"
    by blast+
  from all one zero have c: "int (length (out ! 1 ! 0)) = 4"
    by blast
  from all one have "out ! 1 ! 1 =
      map (\<lambda>j. ?as ! 1 ! ((1 * nat 4 + j) mod length (?as ! 1))) [0..<nat 4]"
    by blast
  also have "\<dots> = map (\<lambda>j. ?a1 ! ((4 + j) mod 7)) [0, 1, 2, 3]"
    unfolding i1 by (simp add: upt_rec)
  also have "\<dots> = [24, 25, 26, 20]"
    by simp
  finally have d: "out ! 1 ! 1 = [24, 25, 26, 20]" .
  from md have e: "starts g ! 1 mod 7 = 5"
    unfolding i1 by simp
  from r r1 a b st c d e show ?thesis
    unfolding i1 by (intro exI [of _ out] exI [of _ g] exI [of _ out1] exI [of _ g1]) simp
qed

text \<open>
  With ten rows, three rows and \<open>B = 7\<close> the two batches of the first call have 7 and 6
  rows, those of the second call 7 and 3.
\<close>

theorem lock_step_same_rows_counterexample:
  "generator_run 2 (generator [[10, 11, 12, 13, 14, 15, 16, 17, 18, 19 :: nat], [20, 21, 22]] 7) =
     Inr ([[[10, 11, 12, 13, 14, 15, 16], [20, 21, 22, 20, 21, 22]],
           [[17, 18, 19, 10, 11, 12, 13], [20, 21, 22]]],
          \<lparr>arrays = [[10, 11, 12, 13, 14, 15, 16, 17, 18, 19], [20, 21, 22]],
           batch_size = 7, starts = [4, 8]\<rparr>) \<and>
   int (length [20, 21, 22, 20, 21, 22 :: nat]) \<noteq> 7 \<and>
   length [10, 11, 12, 13, 14, 15, 16 :: nat] \<noteq> length [20, 21, 22, 20, 21, 22 :: nat]"
  by code_simp

end
